theory Spec2Isabelle
  imports Main
begin

section \<open>Python values, names and exceptions\<close>

text \<open>
  The engine of \<^verbatim>\<open>permchain/pregel/__init__.py\<close> moves untyped Python values between
  channels. Values are modelled by a small universe: \<open>None\<close>, integers, strings, lists
  and dictionaries (an association list in insertion order).
\<close>

datatype pyval =
    PNone
  | PInt int
  | PStr string
  | PList "pyval list"
  | PDict "(pyval \<times> pyval) list"

text \<open>
  A Python \<open>str\<close> object has an identity besides its characters. Dictionary lookup,
  \<open>in\<close> and \<open>==\<close> compare the characters; the operator \<open>is\<close> compares the
  identity. The step loop uses \<open>is\<close> once (on the name of a pending write), so the names
  that travel in the pending-writes buffer keep their identity.
\<close>

record pystr =
  ident :: nat
  chars :: string

text \<open>The exceptions the modelled code can raise or let through.\<close>

datatype pyerror =
    EmptyChannelError
  | KeyError
  | TypeError
  | AttributeError
  | ValueError
  | NameError
  | RuntimeError
  | TimeoutError nat
  | UserError string

type_synonym pytype = string

section \<open>Channels\<close>

text \<open>
  The class \<open>Channel\<close> lives in \<^verbatim>\<open>permchain.channels.base\<close>, outside the file under
  study; only its interface is used. A channel object is modelled as a record of its
  two type descriptors, its current state and its two methods. \<open>get\<close> returns
  \<open>None\<close> where the Python method raises \<open>EmptyChannelError\<close>.
\<close>

record 's Channel =
  UpdateType :: pytype
  ValueType :: pytype
  state :: 's
  update :: "pyval list \<Rightarrow> 's \<Rightarrow> 's"
  get :: "'s \<Rightarrow> pyval option"

type_synonym 's registry = "string \<rightharpoonup> 's Channel"

text \<open>\<^verbatim>\<open>channel.update(vals)\<close>: the object is mutated in place.\<close>

definition channel_update :: "'s Channel \<Rightarrow> pyval list \<Rightarrow> 's Channel" where
  "channel_update ch vals = ch\<lparr>state := update ch vals (state ch)\<rparr>"

text \<open>\<^verbatim>\<open>channel.get()\<close>.\<close>

definition channel_get :: "'s Channel \<Rightarrow> pyerror + pyval" where
  "channel_get ch =
     (case get ch (state ch) of None \<Rightarrow> Inl EmptyChannelError | Some v \<Rightarrow> Inr v)"

text \<open>\<^verbatim>\<open>channels[chan].get()\<close>: the lookup raises \<open>KeyError\<close> for a missing name.\<close>

definition lookup_get :: "'s registry \<Rightarrow> string \<Rightarrow> pyerror + pyval" where
  "lookup_get channels chan =
     (case channels chan of None \<Rightarrow> Inl KeyError | Some ch \<Rightarrow> channel_get ch)"

text \<open>
  Modelled from the spec: the channel classes are not part of the file under study; the
  spec (section 4.1, guarantee (b)) asks of every channel that \<open>get\<close> does not fail
  after an \<open>update\<close>. The planner only ever passes a non-empty list of writes.
\<close>

definition reliable :: "'s Channel \<Rightarrow> bool" where
  "reliable ch = (\<forall>vals s. vals \<noteq> [] \<longrightarrow> get ch (update ch vals s) \<noteq> None)"

section \<open>Processes\<close>

text \<open>
  What a task does when the step loop calls \<^verbatim>\<open>proc.invoke(input, config)\<close> is user
  code. It is a function of the input, the step number and the injected \<open>read\<close>
  function, and ends in one of three ways: it returns, having sent a list of writes
  through the injected \<open>send\<close>; it raises; or it is still in flight when the step
  timeout elapses (the clock itself is not modelled).
\<close>

datatype outcome =
    Wrote "(pystr \<times> pyval) list"
  | Raised pyerror
  | TimedOut

type_synonym behaviour = "pyval \<Rightarrow> nat \<Rightarrow> (string \<Rightarrow> pyerror + pyval) \<Rightarrow> outcome"

text \<open>
  \<open>PregelInvoke\<close> carries \<open>channels\<close>, a mapping from local key (\<open>None\<close> or a string)
  to channel name; \<open>PregelBatch\<close> carries \<open>channel\<close> and an optional \<open>key\<close>.
\<close>

datatype process =
    PregelInvoke "(string option \<times> string) list" behaviour
  | PregelBatch string "string option" behaviour

fun invoke_proc :: "process \<Rightarrow> behaviour" where
  "invoke_proc (PregelInvoke subs b) = b"
| "invoke_proc (PregelBatch c k b) = b"

type_synonym task = "process \<times> pyval"

section \<open>The planner\<close>

text \<open>
  \<^verbatim>\<open>pending_writes_by_channel[chan].append(val)\<close> on a \<open>defaultdict(list)\<close>: a new
  name is added after the existing ones, an existing name keeps its place.
\<close>

fun append_write :: "(string \<times> pyval list) list \<Rightarrow> string \<Rightarrow> pyval \<Rightarrow> (string \<times> pyval list) list" where
  "append_write [] chan val = [(chan, [val])]"
| "append_write ((c, vals) # rest) chan val =
     (if c = chan then (c, vals @ [val]) # rest else (c, vals) # append_write rest chan val)"

fun group_writes :: "(string \<times> pyval list) list \<Rightarrow> (string \<times> pyval) list \<Rightarrow> (string \<times> pyval list) list" where
  "group_writes by_channel [] = by_channel"
| "group_writes by_channel ((chan, val) # rest) = group_writes (append_write by_channel chan val) rest"

text \<open>
  The calls the planner makes on its collaborators are recorded as events, in the order
  they happen: an \<open>update\<close> call on the channel registered under a name, or a warning
  sent to the logger.
\<close>

datatype event =
    UpdateCall string "pyval list"
  | Warning string

definition skip_message :: "string \<Rightarrow> string" where
  "skip_message chan = ''Skipping write for channel '' @ chan @ '' which has no readers''"

text \<open>The loop \<^verbatim>\<open>for chan, vals in pending_writes_by_channel.items()\<close>.\<close>

fun apply_writes ::
  "'s registry \<Rightarrow> string set \<Rightarrow> event list \<Rightarrow> (string \<times> pyval list) list
     \<Rightarrow> 's registry \<times> string set \<times> event list" where
  "apply_writes channels updated_channels events [] = (channels, updated_channels, events)"
| "apply_writes channels updated_channels events ((chan, vals) # rest) =
     (case channels chan of
        Some ch \<Rightarrow>
          apply_writes (channels(chan \<mapsto> channel_update ch vals)) (insert chan updated_channels)
            (events @ [UpdateCall chan vals]) rest
      | None \<Rightarrow>
          apply_writes channels updated_channels (events @ [Warning (skip_message chan)]) rest)"

text \<open>
  The dictionary comprehension \<^verbatim>\<open>{k: channels[chan].get() for k, chan in ...}\<close>: the reads
  happen in order and the first failure ends the comprehension.
\<close>

fun key_val :: "string option \<Rightarrow> pyval" where
  "key_val None = PNone"
| "key_val (Some k) = PStr k"

fun read_all :: "'s registry \<Rightarrow> (string option \<times> string) list \<Rightarrow> pyerror + (pyval \<times> pyval) list" where
  "read_all channels [] = Inr []"
| "read_all channels ((k, chan) # rest) =
     (case lookup_get channels chan of
        Inl e \<Rightarrow> Inl e
      | Inr v \<Rightarrow>
          (case read_all channels rest of
             Inl e \<Rightarrow> Inl e
           | Inr kvs \<Rightarrow> Inr ((key_val k, v) # kvs)))"

text \<open>Iterating a value, as the list comprehension of the batch branch does.\<close>

fun py_iter :: "pyval \<Rightarrow> pyerror + pyval list" where
  "py_iter (PList xs) = Inr xs"
| "py_iter (PDict kvs) = Inr (map fst kvs)"
| "py_iter (PStr s) = Inr (map (\<lambda>c. PStr [c]) s)"
| "py_iter PNone = Inl TypeError"
| "py_iter (PInt n) = Inl TypeError"

text \<open>
  The body of the loop \<^verbatim>\<open>for proc in processes\<close>: the task to append for one process,
  \<open>None\<close> when nothing is appended.
\<close>

fun prepare_task :: "'s registry \<Rightarrow> string set \<Rightarrow> process \<Rightarrow> pyerror + task option" where
  "prepare_task channels updated_channels (PregelInvoke subs b) =
     (if list_ex (\<lambda>chan. chan \<in> updated_channels) (map snd subs) then
        (case read_all channels subs of
           Inl EmptyChannelError \<Rightarrow> Inr None
         | Inl e \<Rightarrow> Inl e
         | Inr kvs \<Rightarrow>
             (if map fst subs = [None] then
                (case map_of kvs PNone of
                   None \<Rightarrow> Inl KeyError
                 | Some v \<Rightarrow> Inr (Some (PregelInvoke subs b, v)))
              else Inr (Some (PregelInvoke subs b, PDict kvs))))
      else Inr None)"
| "prepare_task channels updated_channels (PregelBatch channel key b) =
     (if channel \<in> updated_channels then
        (case lookup_get channels channel of
           Inl e \<Rightarrow> Inl e
         | Inr v \<Rightarrow>
             (case key of
                None \<Rightarrow> Inr (Some (PregelBatch channel key b, v))
              | Some k \<Rightarrow>
                  (case py_iter v of
                     Inl e \<Rightarrow> Inl e
                   | Inr xs \<Rightarrow>
                       Inr (Some (PregelBatch channel key b,
                                  PList (map (\<lambda>x. PDict [(PStr k, x)]) xs))))))
      else Inr None)"

fun prepare_next_tasks :: "'s registry \<Rightarrow> string set \<Rightarrow> process list \<Rightarrow> pyerror + task list" where
  "prepare_next_tasks channels updated_channels [] = Inr []"
| "prepare_next_tasks channels updated_channels (proc # rest) =
     (case prepare_task channels updated_channels proc of
        Inl e \<Rightarrow> Inl e
      | Inr t \<Rightarrow>
          (case prepare_next_tasks channels updated_channels rest of
             Inl e \<Rightarrow> Inl e
           | Inr ts \<Rightarrow> Inr (case t of None \<Rightarrow> ts | Some x \<Rightarrow> x # ts)))"

text \<open>
  What \<^verbatim>\<open>_apply_writes_and_prepare_next_tasks\<close> leaves behind: the registry after the
  updates, the set \<open>updated_channels\<close>, the events, and the returned task list.
\<close>

record 's planned =
  new_channels :: "'s registry"
  updated :: "string set"
  events :: "event list"
  tasks :: "task list"

definition apply_phase :: "'s registry \<Rightarrow> (string \<times> pyval) list \<Rightarrow> 's registry \<times> string set \<times> event list" where
  "apply_phase channels pending_writes = apply_writes channels {} [] (group_writes [] pending_writes)"

definition apply_writes_and_prepare_next_tasks ::
  "process list \<Rightarrow> 's registry \<Rightarrow> (string \<times> pyval) list \<Rightarrow> pyerror + 's planned" where
  "apply_writes_and_prepare_next_tasks processes channels pending_writes =
     (case apply_phase channels pending_writes of
        (channels', updated_channels, evs) \<Rightarrow>
          (case prepare_next_tasks channels' updated_channels processes of
             Inl e \<Rightarrow> Inl e
           | Inr ts \<Rightarrow>
               Inr \<lparr>new_channels = channels', updated = updated_channels, events = evs, tasks = ts\<rparr>))"

text \<open>
  For stating what the planner does: the values the pending writes send to a name, in
  buffer order, and the arguments of the \<open>update\<close> calls made on a name, in call order.
\<close>

definition written_to :: "string \<Rightarrow> (string \<times> pyval) list \<Rightarrow> pyval list" where
  "written_to c ws = map snd (filter (\<lambda>w. fst w = c) ws)"

fun calls_on :: "string \<Rightarrow> event list \<Rightarrow> pyval list list" where
  "calls_on c [] = []"
| "calls_on c (UpdateCall d vals # es) = (if d = c then vals # calls_on c es else calls_on c es)"
| "calls_on c (Warning m # es) = calls_on c es"

section \<open>The engine\<close>

text \<open>
  \<open>input\<close> and \<open>output\<close> are declared as \<^verbatim>\<open>str | Sequence[str]\<close>. The single name
  is kept as the object it is (the loop compares it with \<open>is\<close>); of a sequence only the
  characters of its names are ever used.
\<close>

datatype names = Single pystr | Many "string list"

text \<open>
  The fields of \<open>Pregel\<close>. \<open>channels\<close> holds the registry as the channels manager hands
  it to a run. \<open>step_timeout\<close> has no field: whether a task overruns it is part of the
  task's \<open>outcome\<close>.
\<close>

record 's Pregel =
  channels :: "'s registry"
  chains :: "process list"
  "output" :: names
  "input" :: names

text \<open>The function \<open>read\<close> that \<^verbatim>\<open>_transform\<close> defines and injects into every task.\<close>

definition read :: "'s registry \<Rightarrow> string \<Rightarrow> pyerror + pyval" where
  "read chans chan =
     (case lookup_get chans chan of
        Inl EmptyChannelError \<Rightarrow> Inr PNone
      | Inl e \<Rightarrow> Inl e
      | Inr v \<Rightarrow> Inr v)"

text \<open>
  Submitting the tasks of a step and waiting for them: a task that raised makes the step
  raise its exception; otherwise a task still in flight makes the step raise
  \<open>TimeoutError\<close>; otherwise the writes the tasks sent are the pending writes.
  Tasks run concurrently, so the order of the writes of different tasks is not fixed by the
  code; the model takes them in task order.
\<close>

fun first_raised :: "outcome list \<Rightarrow> pyerror option" where
  "first_raised [] = None"
| "first_raised (Raised e # rest) = Some e"
| "first_raised (other # rest) = first_raised rest"

fun in_flight :: "outcome \<Rightarrow> bool" where
  "in_flight TimedOut = True"
| "in_flight other = False"

fun sent :: "outcome \<Rightarrow> (pystr \<times> pyval) list" where
  "sent (Wrote ws) = ws"
| "sent other = []"

definition run_tasks ::
  "(string \<Rightarrow> pyerror + pyval) \<Rightarrow> nat \<Rightarrow> task list \<Rightarrow> pyerror + (pystr \<times> pyval) list" where
  "run_tasks rd step next_tasks =
     (let outcomes = map (\<lambda>(proc, inp). invoke_proc proc inp step rd) next_tasks in
      case first_raised outcomes of
        Some e \<Rightarrow> Inl e
      | None \<Rightarrow>
          if list_ex in_flight outcomes then Inl (TimeoutError step)
          else Inr (concat (map sent outcomes)))"

text \<open>
  The emission at the end of a step. For a single output name the test is
  \<^verbatim>\<open>any(chan is self.output for chan, _ in pending_writes)\<close>: identity of the name
  objects. For a sequence of names the test is \<^verbatim>\<open>c in self.output\<close>: equality.
\<close>

fun get_each :: "'s registry \<Rightarrow> string list \<Rightarrow> pyerror + (pyval \<times> pyval) list" where
  "get_each chans [] = Inr []"
| "get_each chans (chan # rest) =
     (case lookup_get chans chan of
        Inl e \<Rightarrow> Inl e
      | Inr v \<Rightarrow>
          (case get_each chans rest of
             Inl e \<Rightarrow> Inl e
           | Inr kvs \<Rightarrow> Inr ((PStr chan, v) # kvs)))"

fun emit_output :: "names \<Rightarrow> 's registry \<Rightarrow> (pystr \<times> pyval) list \<Rightarrow> pyerror + pyval option" where
  "emit_output (Single out) chans pending_writes =
     (if list_ex (\<lambda>(chan, _). ident chan = ident out) pending_writes then
        (case lookup_get chans (chars out) of
           Inl e \<Rightarrow> Inl e
         | Inr v \<Rightarrow> Inr (Some v))
      else Inr None)"
| "emit_output (Many outs) chans pending_writes =
     (case remdups (filter (\<lambda>c. c \<in> set outs) (map (\<lambda>(c, _). chars c) pending_writes)) of
        [] \<Rightarrow> Inr None
      | c # cs \<Rightarrow>
          (case get_each chans (c # cs) of
             Inl e \<Rightarrow> Inl e
           | Inr kvs \<Rightarrow> Inr (Some (PDict kvs))))"

text \<open>
  One iteration of \<^verbatim>\<open>for step in range(config["recursion_limit"])\<close>, up to the test
  \<^verbatim>\<open>if not next_tasks: break\<close>: the optional output, the registry and the next tasks.
  The planner groups and routes by the characters of the names.
\<close>

definition step_body ::
  "'s Pregel \<Rightarrow> nat \<Rightarrow> 's registry \<Rightarrow> task list \<Rightarrow> pyerror + (pyval option \<times> 's registry \<times> task list)" where
  "step_body eng step chans next_tasks =
     (case run_tasks (read chans) step next_tasks of
        Inl e \<Rightarrow> Inl e
      | Inr pending_writes \<Rightarrow>
          (case apply_writes_and_prepare_next_tasks (chains eng) chans
                  (map (\<lambda>(c, v). (chars c, v)) pending_writes) of
             Inl e \<Rightarrow> Inl e
           | Inr r \<Rightarrow>
               (case emit_output (output eng) (new_channels r) pending_writes of
                  Inl e \<Rightarrow> Inl e
                | Inr out \<Rightarrow> Inr (out, new_channels r, tasks r))))"

text \<open>
  A run of the generator: the values it yielded, the exception that ended it (if one
  did), and the number of loop iterations it entered.
\<close>

record run =
  yielded :: "pyval list"
  raised :: "pyerror option"
  steps :: nat

fun step_loop :: "'s Pregel \<Rightarrow> nat \<Rightarrow> nat \<Rightarrow> 's registry \<Rightarrow> task list \<Rightarrow> run" where
  "step_loop eng 0 step chans next_tasks = \<lparr>yielded = [], raised = None, steps = 0\<rparr>"
| "step_loop eng (Suc remaining) step chans next_tasks =
     (case step_body eng step chans next_tasks of
        Inl e \<Rightarrow> \<lparr>yielded = [], raised = Some e, steps = 1\<rparr>
      | Inr (out, chans', next_tasks') \<Rightarrow>
          (let rest = (case next_tasks' of
                         [] \<Rightarrow> \<lparr>yielded = [], raised = None, steps = 0\<rparr>
                       | t # ts \<Rightarrow> step_loop eng remaining (Suc step) chans' next_tasks')
           in \<lparr>yielded = (case out of None \<Rightarrow> [] | Some v \<Rightarrow> [v]) @ yielded rest,
               raised = raised rest,
               steps = Suc (steps rest)\<rparr>))"


text \<open>The seed: the pending writes built from the chunks of the input stream.\<close>

fun chunk_items :: "string list \<Rightarrow> pyval \<Rightarrow> pyerror + (string \<times> pyval) list" where
  "chunk_items ns (PDict kvs) =
     Inr (concat (map (\<lambda>(k, v). case k of PStr s \<Rightarrow> (if s \<in> set ns then [(s, v)] else []) | _ \<Rightarrow> []) kvs))"
| "chunk_items ns other = Inl AttributeError"

fun seed_items :: "string list \<Rightarrow> pyval list \<Rightarrow> pyerror + (string \<times> pyval) list" where
  "seed_items ns [] = Inr []"
| "seed_items ns (chunk # rest) =
     (case chunk_items ns chunk of
        Inl e \<Rightarrow> Inl e
      | Inr ws \<Rightarrow> (case seed_items ns rest of Inl e \<Rightarrow> Inl e | Inr ws' \<Rightarrow> Inr (ws @ ws')))"

fun seed_writes :: "names \<Rightarrow> pyval list \<Rightarrow> pyerror + (string \<times> pyval) list" where
  "seed_writes (Single name) inp = Inr (map (\<lambda>chunk. (chars name, chunk)) inp)"
| "seed_writes (Many ns) inp = seed_items ns inp"

text \<open>
  \<^verbatim>\<open>Pregel._transform\<close>, with \<open>recursion_limit\<close> the entry of that name in the
  configuration (\<open>range\<close> of a number below one is empty).
\<close>

definition Pregel_transform :: "'s Pregel \<Rightarrow> int \<Rightarrow> pyval list \<Rightarrow> run" where
  "Pregel_transform eng recursion_limit inp =
     (case seed_writes (input eng) inp of
        Inl e \<Rightarrow> \<lparr>yielded = [], raised = Some e, steps = 0\<rparr>
      | Inr seed \<Rightarrow>
          (case apply_writes_and_prepare_next_tasks (chains eng) (channels eng) seed of
             Inl e \<Rightarrow> \<lparr>yielded = [], raised = Some e, steps = 0\<rparr>
           | Inr r \<Rightarrow> step_loop eng (nat recursion_limit) 0 (new_channels r) (tasks r)))"

text \<open>
  \<^verbatim>\<open>Pregel._atransform\<close> is the same loop on the event loop's tasks. It waits with
  \<^verbatim>\<open>asyncio.wait\<close>, which raises \<open>ValueError\<close> when it is given no task at all, where
  \<^verbatim>\<open>concurrent.futures.wait\<close> returns two empty sets.
\<close>

definition arun_tasks ::
  "(string \<Rightarrow> pyerror + pyval) \<Rightarrow> nat \<Rightarrow> task list \<Rightarrow> pyerror + (pystr \<times> pyval) list" where
  "arun_tasks rd step next_tasks =
     (case next_tasks of
        [] \<Rightarrow> Inl ValueError
      | t # ts \<Rightarrow> run_tasks rd step next_tasks)"

definition astep_body ::
  "'s Pregel \<Rightarrow> nat \<Rightarrow> 's registry \<Rightarrow> task list \<Rightarrow> pyerror + (pyval option \<times> 's registry \<times> task list)" where
  "astep_body eng step chans next_tasks =
     (case arun_tasks (read chans) step next_tasks of
        Inl e \<Rightarrow> Inl e
      | Inr pending_writes \<Rightarrow>
          (case apply_writes_and_prepare_next_tasks (chains eng) chans
                  (map (\<lambda>(c, v). (chars c, v)) pending_writes) of
             Inl e \<Rightarrow> Inl e
           | Inr r \<Rightarrow>
               (case emit_output (output eng) (new_channels r) pending_writes of
                  Inl e \<Rightarrow> Inl e
                | Inr out \<Rightarrow> Inr (out, new_channels r, tasks r))))"

fun astep_loop :: "'s Pregel \<Rightarrow> nat \<Rightarrow> nat \<Rightarrow> 's registry \<Rightarrow> task list \<Rightarrow> run" where
  "astep_loop eng 0 step chans next_tasks = \<lparr>yielded = [], raised = None, steps = 0\<rparr>"
| "astep_loop eng (Suc remaining) step chans next_tasks =
     (case astep_body eng step chans next_tasks of
        Inl e \<Rightarrow> \<lparr>yielded = [], raised = Some e, steps = 1\<rparr>
      | Inr (out, chans', next_tasks') \<Rightarrow>
          (let rest = (case next_tasks' of
                         [] \<Rightarrow> \<lparr>yielded = [], raised = None, steps = 0\<rparr>
                       | t # ts \<Rightarrow> astep_loop eng remaining (Suc step) chans' next_tasks')
           in \<lparr>yielded = (case out of None \<Rightarrow> [] | Some v \<Rightarrow> [v]) @ yielded rest,
               raised = raised rest,
               steps = Suc (steps rest)\<rparr>))"

definition Pregel_atransform :: "'s Pregel \<Rightarrow> int \<Rightarrow> pyval list \<Rightarrow> run" where
  "Pregel_atransform eng recursion_limit inp =
     (case seed_writes (input eng) inp of
        Inl e \<Rightarrow> \<lparr>yielded = [], raised = Some e, steps = 0\<rparr>
      | Inr seed \<Rightarrow>
          (case apply_writes_and_prepare_next_tasks (chains eng) (channels eng) seed of
             Inl e \<Rightarrow> \<lparr>yielded = [], raised = Some e, steps = 0\<rparr>
           | Inr r \<Rightarrow> astep_loop eng (nat recursion_limit) 0 (new_channels r) (tasks r)))"

text \<open>
  \<open>transform\<close> hands \<^verbatim>\<open>_transform\<close> to the framework's stream wrapper, which passes the
  chunks through; \<open>stream\<close> is \<open>transform\<close> on the one-element input; \<open>invoke\<close> keeps
  the latest chunk of \<open>stream\<close>.
\<close>

definition transform :: "'s Pregel \<Rightarrow> int \<Rightarrow> pyval list \<Rightarrow> run" where
  "transform eng recursion_limit inp = Pregel_transform eng recursion_limit inp"

definition stream :: "'s Pregel \<Rightarrow> int \<Rightarrow> pyval \<Rightarrow> run" where
  "stream eng recursion_limit inp = transform eng recursion_limit [inp]"

fun keep_latest :: "pyval \<Rightarrow> pyval list \<Rightarrow> pyval" where
  "keep_latest latest [] = latest"
| "keep_latest latest (chunk # rest) = keep_latest chunk rest"

definition invoke :: "'s Pregel \<Rightarrow> int \<Rightarrow> pyval \<Rightarrow> pyerror + pyval" where
  "invoke eng recursion_limit inp =
     (let r = stream eng recursion_limit inp in
      case raised r of
        Some e \<Rightarrow> Inl e
      | None \<Rightarrow> Inr (keep_latest PNone (yielded r)))"

section \<open>Schemas\<close>










section \<open>Example channels and engines\<close>

text \<open>
  Modelled from the spec: the channel classes are not part of the file under study.
  \<open>LastValue\<close> keeps the last element of the writes (section 4.1); \<open>Topic\<close> keeps the
  list of the writes of the last update.
\<close>

definition LastValue :: "pytype \<Rightarrow> pyval option Channel" where
  "LastValue ty =
     \<lparr>UpdateType = ty, ValueType = ty, state = None,
      update = (\<lambda>vals s. if vals = [] then s else Some (last vals)),
      get = (\<lambda>s. s)\<rparr>"

definition Topic :: "pytype \<Rightarrow> pyval option Channel" where
  "Topic ty =
     \<lparr>UpdateType = ty, ValueType = ''list'', state = None,
      update = (\<lambda>vals s. Some (PList vals)),
      get = (\<lambda>s. s)\<rparr>"

text \<open>
  Name objects. \<open>rebuilt_output_name\<close> is a string with the characters of
  \<open>output_name\<close> that was built separately (joined at run time, or loaded from a
  serialised engine): an equal string, another object.
\<close>

definition input_name :: pystr where
  "input_name = \<lparr>ident = 1, chars = ''input''\<rparr>"

definition output_name :: pystr where
  "output_name = \<lparr>ident = 2, chars = ''output''\<rparr>"

definition rebuilt_output_name :: pystr where
  "rebuilt_output_name = \<lparr>ident = 3, chars = ''output''\<rparr>"

definition ghost_name :: pystr where
  "ghost_name = \<lparr>ident = 4, chars = ''ghost''\<rparr>"

text \<open>
  The echo engine (scenario 1 of the spec): one process subscribed to \<open>input\<close> with the
  keyless form, which sends its input followed by an exclamation mark to \<open>target\<close>.
\<close>

fun exclaim :: "pyval \<Rightarrow> pyval" where
  "exclaim (PStr s) = PStr (s @ ''!'')"
| "exclaim v = v"

definition echo_to :: "pystr \<Rightarrow> behaviour" where
  "echo_to target = (\<lambda>inp step rd. Wrote [(target, exclaim inp)])"

definition echo_channels :: "pyval option registry" where
  "echo_channels = [''input'' \<mapsto> LastValue ''str'', ''output'' \<mapsto> LastValue ''str'']"

definition echo_engine :: "pystr \<Rightarrow> pyval option Pregel" where
  "echo_engine target =
     \<lparr>channels = echo_channels,
      chains = [PregelInvoke [(None, ''input'')] (echo_to target)],
      output = Single output_name,
      input = Single input_name\<rparr>"




text \<open>A batch process over a topic, and a process with two named subscriptions.\<close>

definition silent :: behaviour where
  "silent = (\<lambda>inp step rd. Wrote [])"

definition batch_channels :: "pyval option registry" where
  "batch_channels = [''items'' \<mapsto> Topic ''int'', ''output'' \<mapsto> LastValue ''int'']"

definition item_batch :: process where
  "item_batch = PregelBatch ''items'' (Some ''item'') silent"

definition pair_reader :: process where
  "pair_reader = PregelInvoke [(Some ''a'', ''items''), (Some ''b'', ''output'')] silent"

text \<open>
  An engine whose input is a sequence of names: the batch process over \<open>items\<close>, fed
  from the key \<open>items\<close> of the input mapping. \<open>open_engine\<close> declares the empty
  sequence as its input.
\<close>

definition items_engine :: "pyval option Pregel" where
  "items_engine =
     \<lparr>channels = batch_channels,
      chains = [item_batch],
      output = Single output_name,
      input = Many [''items'']\<rparr>"





section \<open>Grouping and applying the pending writes\<close>

lemma written_to_Nil [simp]: "written_to c [] = []"
  by (simp add: written_to_def)

lemma written_to_Cons [simp]:
  "written_to c ((d, v) # ws) = (if d = c then v # written_to c ws else written_to c ws)"
  by (simp add: written_to_def)

lemma written_to_empty_iff: "written_to c ws = [] \<longleftrightarrow> c \<notin> fst ` set ws"
  by (induction ws) (auto simp: written_to_def)

lemma append_write_keys:
  "map fst (append_write acc c v) = (if c \<in> fst ` set acc then map fst acc else map fst acc @ [c])"
  by (induction acc c v rule: append_write.induct) auto

lemma append_write_distinct:
  "distinct (map fst acc) \<Longrightarrow> distinct (map fst (append_write acc c v))"
  by (simp add: append_write_keys)

lemma map_of_append_write:
  "map_of (append_write acc c v) k =
     (if k = c then Some ((case map_of acc c of None \<Rightarrow> [] | Some vs \<Rightarrow> vs) @ [v]) else map_of acc k)"
  by (induction acc c v rule: append_write.induct) auto

lemma group_writes_distinct:
  "distinct (map fst acc) \<Longrightarrow> distinct (map fst (group_writes acc ws))"
  by (induction acc ws rule: group_writes.induct) (auto simp: append_write_distinct)

lemma map_of_group_writes:
  "map_of (group_writes acc ws) k =
     (if written_to k ws = [] then map_of acc k
      else Some ((case map_of acc k of None \<Rightarrow> [] | Some vs \<Rightarrow> vs) @ written_to k ws))"
  by (induction acc ws rule: group_writes.induct) (auto simp: map_of_append_write split: option.splits)

lemma append_write_key_set:
  "fst ` set (append_write acc c v) = insert c (fst ` set acc)"
  by (induction acc c v rule: append_write.induct) auto

lemma group_writes_keys:
  "fst ` set (group_writes acc ws) = fst ` set acc \<union> fst ` set ws"
  by (induction acc ws rule: group_writes.induct) (auto simp: append_write_key_set)

lemma apply_writes_events:
  "snd (snd (apply_writes chans U E g)) =
     E @ map (\<lambda>(c, vs). if chans c = None then Warning (skip_message c) else UpdateCall c vs) g"
proof (induction g arbitrary: chans U E)
  case Nil
  then show ?case by simp
next
  case (Cons a g)
  obtain c vs where a: "a = (c, vs)" by (cases a)
  show ?case
  proof (cases "chans c")
    case None
    then show ?thesis using Cons a by simp
  next
    case (Some ch)
    have "\<And>k. ((chans(c \<mapsto> channel_update ch vs)) k = None) = (chans k = None)"
      using Some by simp
    then show ?thesis using Cons a Some by simp
  qed
qed

lemma apply_writes_updated:
  "fst (snd (apply_writes chans U E g)) = U \<union> {c \<in> fst ` set g. chans c \<noteq> None}"
proof (induction g arbitrary: chans U E)
  case Nil
  then show ?case by simp
next
  case (Cons a g)
  obtain c vs where a: "a = (c, vs)" by (cases a)
  show ?case
  proof (cases "chans c")
    case None
    then show ?thesis using Cons a by auto
  next
    case (Some ch)
    have "\<And>k. ((chans(c \<mapsto> channel_update ch vs)) k = None) = (chans k = None)"
      using Some by simp
    then show ?thesis using Cons a Some by auto
  qed
qed

lemma apply_writes_channels:
  "distinct (map fst g) \<Longrightarrow>
   fst (apply_writes chans U E g) k =
     (case chans k of
        None \<Rightarrow> None
      | Some ch \<Rightarrow> (case map_of g k of None \<Rightarrow> Some ch | Some vs \<Rightarrow> Some (channel_update ch vs)))"
proof (induction g arbitrary: chans U E)
  case Nil
  then show ?case by (simp split: option.splits)
next
  case (Cons a g)
  obtain c vs where a: "a = (c, vs)" by (cases a)
  have nk: "map_of g c = None" using Cons.prems a by (simp add: map_of_eq_None_iff)
  show ?case using Cons a nk by (auto split: option.splits)
qed

lemma calls_on_append: "calls_on c (es @ fs) = calls_on c es @ calls_on c fs"
  by (induction c es rule: calls_on.induct) auto

lemma calls_on_events:
  "distinct (map fst g) \<Longrightarrow>
   calls_on c (map (\<lambda>(c, vs). if chans c = None then Warning (skip_message c) else UpdateCall c vs) g) =
     (case map_of g c of None \<Rightarrow> [] | Some vs \<Rightarrow> if chans c = None then [] else [vs])"
proof (induction g)
  case Nil
  then show ?case by simp
next
  case (Cons a g)
  obtain d vs where a: "a = (d, vs)" by (cases a)
  have "d = c \<Longrightarrow> map_of g c = None" using Cons.prems a by (simp add: map_of_eq_None_iff)
  then show ?case using Cons a by (auto split: option.splits)
qed


lemma append_write_filter:
  "filter (\<lambda>g. P (fst g)) (append_write acc c v) =
     (if P c then append_write (filter (\<lambda>g. P (fst g)) acc) c v else filter (\<lambda>g. P (fst g)) acc)"
  by (induction acc c v rule: append_write.induct) auto

lemma group_writes_filter:
  "group_writes (filter (\<lambda>g. P (fst g)) acc) (filter (\<lambda>w. P (fst w)) ws) =
     filter (\<lambda>g. P (fst g)) (group_writes acc ws)"
  by (induction acc ws rule: group_writes.induct) (auto simp: append_write_filter)

lemma apply_writes_drop:
  "chans c = None \<Longrightarrow>
   fst (apply_writes chans U E (filter (\<lambda>g. fst g \<noteq> c) g)) = fst (apply_writes chans U E' g) \<and>
   fst (snd (apply_writes chans U E (filter (\<lambda>g. fst g \<noteq> c) g))) = fst (snd (apply_writes chans U E' g))"
proof (induction g arbitrary: chans U E E')
  case Nil
  then show ?case by simp
next
  case (Cons a g)
  obtain d vs where a: "a = (d, vs)" by (cases a)
  show ?case
  proof (cases "d = c")
    case True
    then show ?thesis using Cons a by simp
  next
    case False
    then show ?thesis using Cons a by (cases "chans d") auto
  qed
qed

lemma apply_phase_drop:
  assumes "chans c = None"
  shows "fst (apply_phase chans (filter (\<lambda>w. fst w \<noteq> c) ws)) = fst (apply_phase chans ws)"
    and "fst (snd (apply_phase chans (filter (\<lambda>w. fst w \<noteq> c) ws))) = fst (snd (apply_phase chans ws))"
proof -
  have g: "group_writes [] (filter (\<lambda>w. fst w \<noteq> c) ws) = filter (\<lambda>g. fst g \<noteq> c) (group_writes [] ws)"
    using group_writes_filter [of "\<lambda>n. n \<noteq> c" "[]" ws] by simp
  show "fst (apply_phase chans (filter (\<lambda>w. fst w \<noteq> c) ws)) = fst (apply_phase chans ws)"
    unfolding apply_phase_def g using apply_writes_drop [of chans c, OF assms] by blast
  show "fst (snd (apply_phase chans (filter (\<lambda>w. fst w \<noteq> c) ws))) = fst (snd (apply_phase chans ws))"
    unfolding apply_phase_def g using apply_writes_drop [of chans c, OF assms] by blast
qed

lemma apply_phase_events:
  "snd (snd (apply_phase chans ws)) =
     map (\<lambda>(c, vs). if chans c = None then Warning (skip_message c) else UpdateCall c vs)
       (group_writes [] ws)"
  by (simp add: apply_phase_def apply_writes_events)

lemma apply_phase_updated:
  "fst (snd (apply_phase chans ws)) = {c \<in> fst ` set ws. chans c \<noteq> None}"
  by (simp add: apply_phase_def apply_writes_updated group_writes_keys)

lemma map_of_grouped:
  "map_of (group_writes [] ws) c = (if c \<in> fst ` set ws then Some (written_to c ws) else None)"
  by (simp add: map_of_group_writes written_to_empty_iff)

lemma apply_phase_channels:
  "fst (apply_phase chans ws) c =
     (case chans c of
        None \<Rightarrow> None
      | Some ch \<Rightarrow> Some (if c \<in> fst ` set ws then channel_update ch (written_to c ws) else ch))"
proof -
  have d: "distinct (map fst (group_writes [] ws))"
    by (rule group_writes_distinct) simp
  show ?thesis
    unfolding apply_phase_def apply_writes_channels [OF d] map_of_grouped
    by (simp split: option.splits)
qed

lemma apply_phase_calls:
  "calls_on c (snd (snd (apply_phase chans ws))) =
     (if c \<in> fst ` set ws \<and> chans c \<noteq> None then [written_to c ws] else [])"
proof -
  have d: "distinct (map fst (group_writes [] ws))"
    by (rule group_writes_distinct) simp
  show ?thesis
    unfolding apply_phase_events calls_on_events [OF d] map_of_grouped
    by simp
qed




section \<open>Writes to names outside the registry\<close>

lemma written_to_filter_other:
  "d \<noteq> c \<Longrightarrow> written_to d (filter (\<lambda>w. fst w \<noteq> c) ws) = written_to d ws"
  by (induction ws) (auto simp: written_to_def)

lemma planner_unfold:
  "apply_phase chans ws = (chans', U, evs) \<Longrightarrow>
   apply_writes_and_prepare_next_tasks ps chans ws =
     (case prepare_next_tasks chans' U ps of
        Inl e \<Rightarrow> Inl e
      | Inr ts \<Rightarrow> Inr \<lparr>new_channels = chans', updated = U, events = evs, tasks = ts\<rparr>)"
  by (simp add: apply_writes_and_prepare_next_tasks_def)

text \<open>
  Claim C4. A pending write whose name is not in the registry makes the planner log the
  warning for that name; no \<open>update\<close> call is made under the name, the calls made on
  every name are those the planner makes without the writes to that name, the name does
  not enter \<open>updated_channels\<close>, and the planner ends as it does without those writes
  (same registry, same updated set, same tasks or same failure): the unrouted write
  only adds the warning.
\<close>

theorem unrouted_write_dropped:
  assumes ap: "apply_phase chans pending_writes = (chans', U, evs)"
      and w: "(c, v) \<in> set pending_writes"
      and un: "chans c = None"
  shows "Warning (skip_message c) \<in> set evs \<and>
         c \<notin> U \<and>
         (\<forall>d. calls_on d evs =
                calls_on d (snd (snd (apply_phase chans (filter (\<lambda>w. fst w \<noteq> c) pending_writes))))) \<and>
         chans' = fst (apply_phase chans (filter (\<lambda>w. fst w \<noteq> c) pending_writes)) \<and>
         apply_writes_and_prepare_next_tasks processes chans pending_writes =
           (case apply_writes_and_prepare_next_tasks processes chans
                   (filter (\<lambda>w. fst w \<noteq> c) pending_writes) of
              Inl e \<Rightarrow> Inl e
            | Inr r \<Rightarrow> Inr (r\<lparr>events := evs\<rparr>))"
proof -
  let ?ws' = "filter (\<lambda>w. fst w \<noteq> c) pending_writes"
  have e: "evs = snd (snd (apply_phase chans pending_writes))"
    and n: "chans' = fst (apply_phase chans pending_writes)"
    and u: "U = fst (snd (apply_phase chans pending_writes))"
    using ap by simp_all
  have "c \<in> fst ` set (group_writes [] pending_writes)"
    using w by (force simp: group_writes_keys)
  then obtain vs where "(c, vs) \<in> set (group_writes [] pending_writes)"
    by auto
  then have warn: "Warning (skip_message c) \<in> set evs"
    unfolding e apply_phase_events using un by force
  have notin: "c \<notin> U"
    unfolding u apply_phase_updated using un by simp
  have calls: "calls_on d evs = calls_on d (snd (snd (apply_phase chans ?ws')))" for d
  proof (cases "d = c")
    case True
    then show ?thesis unfolding e apply_phase_calls using un by simp
  next
    case False
    then have "d \<in> fst ` set ?ws' \<longleftrightarrow> d \<in> fst ` set pending_writes"
      by force
    then show ?thesis
      unfolding e apply_phase_calls using False by (simp add: written_to_filter_other)
  qed
  have n': "fst (apply_phase chans ?ws') = chans'"
    unfolding n by (rule apply_phase_drop(1) [of chans c, OF un])
  have u': "fst (snd (apply_phase chans ?ws')) = U"
    unfolding u by (rule apply_phase_drop(2) [of chans c, OF un])
  obtain evs' where ap': "apply_phase chans ?ws' = (chans', U, evs')"
    using n' u' by (metis prod.collapse)
  have plan: "apply_writes_and_prepare_next_tasks processes chans pending_writes =
           (case apply_writes_and_prepare_next_tasks processes chans ?ws' of
              Inl e \<Rightarrow> Inl e
            | Inr r \<Rightarrow> Inr (r\<lparr>events := evs\<rparr>))"
    unfolding planner_unfold [OF ap] planner_unfold [OF ap']
    by (simp split: sum.splits)
  from warn notin calls n' plan show ?thesis by simp
qed

theorem unrouted_write_dropped_witness:
  "\<exists>chans' U evs.
     apply_phase batch_channels [(''items'', PInt 1), (''ghost'', PInt 7), (''items'', PInt 2)] = (chans', U, evs) \<and>
     (''ghost'', PInt 7) \<in> set [(''items'', PInt 1), (''ghost'', PInt 7), (''items'', PInt 2)] \<and>
     batch_channels ''ghost'' = None \<and>
     Warning ''Skipping write for channel ghost which has no readers'' \<in> set evs \<and>
     ''ghost'' \<notin> U \<and>
     apply_writes_and_prepare_next_tasks [item_batch] batch_channels
         [(''items'', PInt 1), (''ghost'', PInt 7), (''items'', PInt 2)] =
       (case apply_writes_and_prepare_next_tasks [item_batch] batch_channels
               [(''items'', PInt 1), (''items'', PInt 2)] of
          Inl e \<Rightarrow> Inl e
        | Inr r \<Rightarrow> Inr (r\<lparr>events := evs\<rparr>))"
proof -
  obtain chans' U evs where
    ap: "apply_phase batch_channels [(''items'', PInt 1), (''ghost'', PInt 7), (''items'', PInt 2)] = (chans', U, evs)"
    using prod_cases3 by blast
  have w: "(''ghost'', PInt 7) \<in> set [(''items'', PInt 1), (''ghost'', PInt 7), (''items'', PInt 2)]"
    by simp
  have un: "batch_channels ''ghost'' = None"
    by (simp add: batch_channels_def)
  from unrouted_write_dropped [OF ap w un, of "[item_batch]"] ap w un show ?thesis
    by (simp add: skip_message_def)
qed

section \<open>Which processes the planner schedules\<close>

lemma prepare_task_proc:
  "prepare_task chs V p = Inr (Some (q, v)) \<Longrightarrow> q = p"
  by (cases p) (auto split: if_splits sum.splits pyerror.splits option.splits)

lemma task_some_iff:
  assumes "prepare_task chs V p = Inr t"
  shows "(\<exists>v. prepare_task chs V p = Inr (Some (p, v))) \<longleftrightarrow> t \<noteq> None"
proof (cases t)
  case None
  with assms show ?thesis by simp
next
  case (Some x)
  obtain q v where x: "x = (q, v)" by (cases x)
  with assms Some have "q = p" by (auto dest: prepare_task_proc)
  with assms Some x show ?thesis by simp
qed

lemma prepare_next_tasks_set:
  "prepare_next_tasks chs V ps = Inr ts \<Longrightarrow>
   set ts = {t. \<exists>p\<in>set ps. prepare_task chs V p = Inr (Some t)} \<and>
   (\<forall>p\<in>set ps. \<exists>t. prepare_task chs V p = Inr t)"
proof (induction ps arbitrary: ts)
  case Nil
  then show ?case by simp
next
  case (Cons p ps)
  from Cons.prems obtain t ts' where
    t: "prepare_task chs V p = Inr t" and
    r: "prepare_next_tasks chs V ps = Inr ts'" and
    ts: "ts = (case t of None \<Rightarrow> ts' | Some x \<Rightarrow> x # ts')"
    by (auto split: sum.splits)
  from Cons.IH [OF r] t ts show ?case
    by (cases t) auto
qed

lemma scheduled_iff:
  assumes "apply_writes_and_prepare_next_tasks ps chans ws = Inr r" and "p \<in> set ps"
  shows "(\<exists>v. (p, v) \<in> set (tasks r)) \<longleftrightarrow>
         (\<exists>v. prepare_task (new_channels r) (updated r) p = Inr (Some (p, v)))"
    and "\<exists>t. prepare_task (new_channels r) (updated r) p = Inr t"
proof -
  obtain chans' U evs where ap: "apply_phase chans ws = (chans', U, evs)"
    using prod_cases3 by blast
  from assms(1) obtain ts where
    ts: "prepare_next_tasks chans' U ps = Inr ts" and
    r: "r = \<lparr>new_channels = chans', updated = U, events = evs, tasks = ts\<rparr>"
    unfolding planner_unfold [OF ap] by (auto split: sum.splits)
  note s = prepare_next_tasks_set [OF ts]
  show "\<exists>t. prepare_task (new_channels r) (updated r) p = Inr t"
    using s assms(2) r by simp
  show "(\<exists>v. (p, v) \<in> set (tasks r)) \<longleftrightarrow>
        (\<exists>v. prepare_task (new_channels r) (updated r) p = Inr (Some (p, v)))"
  proof
    assume "\<exists>v. (p, v) \<in> set (tasks r)"
    then obtain v where "(p, v) \<in> set ts" using r by auto
    then obtain q where "prepare_task chans' U q = Inr (Some (p, v))" using s by auto
    moreover from this have "p = q" by (rule prepare_task_proc)
    ultimately show "\<exists>v. prepare_task (new_channels r) (updated r) p = Inr (Some (p, v))"
      using r by auto
  next
    assume "\<exists>v. prepare_task (new_channels r) (updated r) p = Inr (Some (p, v))"
    then show "\<exists>v. (p, v) \<in> set (tasks r)"
      using s assms(2) r by auto
  qed
qed

lemma lookup_get_registered:
  "lookup_get chs chan = Inl e \<Longrightarrow> chs chan = Some ch \<Longrightarrow> e = EmptyChannelError"
  by (auto simp: lookup_get_def channel_get_def split: option.splits)

lemma read_all_Inl:
  "read_all chs subs = Inl e \<Longrightarrow> \<exists>chan\<in>set (map snd subs). lookup_get chs chan = Inl e"
  by (induction chs subs rule: read_all.induct) (auto split: sum.splits)

lemma read_all_Inr:
  "read_all chs subs = Inr kvs \<Longrightarrow>
   map fst kvs = map (key_val \<circ> fst) subs \<and>
   (\<forall>chan\<in>set (map snd subs). \<exists>v. lookup_get chs chan = Inr v)"
  by (induction chs subs arbitrary: kvs rule: read_all.induct) (auto split: sum.splits)

lemma keyless_found:
  assumes "read_all chs subs = Inr kvs" and "map fst subs = [None]"
  shows "\<exists>v. map_of kvs PNone = Some v"
proof -
  have "map fst kvs = [PNone]"
    using read_all_Inr [OF assms(1)] assms(2) by (cases subs) auto
  then show ?thesis by (cases kvs) auto
qed

lemma invoke_task_ready:
  assumes "prepare_task chs V (PregelInvoke subs b) = Inr t"
  shows "t \<noteq> None \<longleftrightarrow>
         (\<exists>chan\<in>set (map snd subs). chan \<in> V) \<and>
         (\<forall>chan\<in>set (map snd subs). lookup_get chs chan \<noteq> Inl EmptyChannelError)"
proof (cases "list_ex (\<lambda>chan. chan \<in> V) (map snd subs)")
  case False
  then show ?thesis using assms by (auto simp: list_ex_iff)
next
  case True
  then have any: "\<exists>chan\<in>set (map snd subs). chan \<in> V" by (simp add: list_ex_iff)
  show ?thesis
  proof (cases "read_all chs subs")
    case (Inl e)
    with assms True have e: "e = EmptyChannelError" and t: "t = None"
      by (auto split: pyerror.splits)
    from read_all_Inl [OF Inl] e t show ?thesis by auto
  next
    case (Inr kvs)
    from read_all_Inr [OF Inr] have ok: "\<forall>chan\<in>set (map snd subs). lookup_get chs chan \<noteq> Inl EmptyChannelError"
      by fastforce
    have "t \<noteq> None"
    proof (cases "map fst subs = [None]")
      case k: True
      from keyless_found [OF Inr k] assms True Inr k show ?thesis by auto
    next
      case False
      with assms True Inr show ?thesis by auto
    qed
    with any ok show ?thesis by simp
  qed
qed

lemma invoke_task_total:
  assumes "set (map snd subs) \<subseteq> dom chs"
  shows "\<exists>t. prepare_task chs V (PregelInvoke subs b) = Inr t"
proof (cases "read_all chs subs")
  case (Inl e)
  from read_all_Inl [OF Inl] obtain chan where
    "chan \<in> set (map snd subs)" "lookup_get chs chan = Inl e" by blast
  with assms have "e = EmptyChannelError"
    by (meson domD lookup_get_registered subsetD)
  with Inl show ?thesis by simp
next
  case (Inr kvs)
  show ?thesis
  proof (cases "map fst subs = [None]")
    case k: True
    from keyless_found [OF Inr k] Inr k show ?thesis by auto
  next
    case False
    with Inr show ?thesis by simp
  qed
qed

text \<open>
  Claim C2. For a \<open>PregelInvoke\<close> process: when all its subscribed names are registered
  (what validation at construction asks), preparing its task never raises, and a task is
  appended exactly when one of its subscribed names is in \<open>updated_channels\<close> and none of
  its subscribed channels fails with \<open>EmptyChannelError\<close>; otherwise the process is
  skipped. And whenever the planner returns, the process is among the returned tasks
  exactly under that condition, read on the registry and the updated set the planner
  leaves.
\<close>

theorem invoke_readiness:
  "(set (map snd subs) \<subseteq> dom chs \<longrightarrow>
      (\<exists>t. prepare_task chs V (PregelInvoke subs b) = Inr t \<and>
           (t \<noteq> None \<longleftrightarrow>
              (\<exists>chan\<in>set (map snd subs). chan \<in> V) \<and>
              (\<forall>chan\<in>set (map snd subs). lookup_get chs chan \<noteq> Inl EmptyChannelError)))) \<and>
   (apply_writes_and_prepare_next_tasks processes chans pending_writes = Inr r \<and>
    PregelInvoke subs b \<in> set processes \<longrightarrow>
      ((\<exists>v. (PregelInvoke subs b, v) \<in> set (tasks r)) \<longleftrightarrow>
         (\<exists>chan\<in>set (map snd subs). chan \<in> updated r) \<and>
         (\<forall>chan\<in>set (map snd subs). lookup_get (new_channels r) chan \<noteq> Inl EmptyChannelError)))"
proof (intro conjI impI)
  assume "set (map snd subs) \<subseteq> dom chs"
  from invoke_task_total [OF this] obtain t where
    t: "prepare_task chs V (PregelInvoke subs b) = Inr t" by blast
  from t invoke_task_ready [OF t]
  show "\<exists>t. prepare_task chs V (PregelInvoke subs b) = Inr t \<and>
           (t \<noteq> None \<longleftrightarrow>
              (\<exists>chan\<in>set (map snd subs). chan \<in> V) \<and>
              (\<forall>chan\<in>set (map snd subs). lookup_get chs chan \<noteq> Inl EmptyChannelError))"
    by blast
next
  assume a: "apply_writes_and_prepare_next_tasks processes chans pending_writes = Inr r \<and>
    PregelInvoke subs b \<in> set processes"
  then have p: "apply_writes_and_prepare_next_tasks processes chans pending_writes = Inr r"
    and m: "PregelInvoke subs b \<in> set processes" by simp_all
  from scheduled_iff(2) [OF p m] obtain t where
    t: "prepare_task (new_channels r) (updated r) (PregelInvoke subs b) = Inr t" by blast
  have "(\<exists>v. (PregelInvoke subs b, v) \<in> set (tasks r)) \<longleftrightarrow> t \<noteq> None"
    unfolding scheduled_iff(1) [OF p m] by (rule task_some_iff [OF t])
  with invoke_task_ready [OF t]
  show "(\<exists>v. (PregelInvoke subs b, v) \<in> set (tasks r)) \<longleftrightarrow>
         (\<exists>chan\<in>set (map snd subs). chan \<in> updated r) \<and>
         (\<forall>chan\<in>set (map snd subs). lookup_get (new_channels r) chan \<noteq> Inl EmptyChannelError)"
    by simp
qed


lemma example_plan:
  "apply_writes_and_prepare_next_tasks [item_batch, pair_reader] batch_channels
     [(''items'', PInt 1), (''ghost'', PInt 7), (''items'', PInt 2)] =
   Inr \<lparr>new_channels = batch_channels(''items'' \<mapsto> channel_update (Topic ''int'') [PInt 1, PInt 2]),
        updated = {''items''},
        events = [UpdateCall ''items'' [PInt 1, PInt 2], Warning (skip_message ''ghost'')],
        tasks = [(item_batch, PList [PDict [(PStr ''item'', PInt 1)], PDict [(PStr ''item'', PInt 2)]])]\<rparr>"
  by (simp add: apply_writes_and_prepare_next_tasks_def apply_phase_def batch_channels_def
      item_batch_def pair_reader_def Topic_def LastValue_def channel_update_def lookup_get_def
      channel_get_def)

theorem invoke_readiness_witness:
  "\<exists>r. apply_writes_and_prepare_next_tasks [item_batch, pair_reader] batch_channels
          [(''items'', PInt 1), (''ghost'', PInt 7), (''items'', PInt 2)] = Inr r \<and>
       pair_reader \<in> set [item_batch, pair_reader] \<and>
       set (map snd [(Some ''a'', ''items''), (Some ''b'', ''output'')]) \<subseteq> dom batch_channels \<and>
       ''items'' \<in> updated r \<and>
       lookup_get (new_channels r) ''output'' = Inl EmptyChannelError \<and>
       \<not> (\<exists>v. (pair_reader, v) \<in> set (tasks r)) \<and>
       prepare_task batch_channels {''items''} pair_reader = Inr None"
proof -
  let ?subs = "[(Some ''a'', ''items''), (Some ''b'', ''output'')]"
  let ?r = "\<lparr>new_channels = batch_channels(''items'' \<mapsto> channel_update (Topic ''int'') [PInt 1, PInt 2]),
        updated = {''items''},
        events = [UpdateCall ''items'' [PInt 1, PInt 2], Warning (skip_message ''ghost'')],
        tasks = [(item_batch, PList [PDict [(PStr ''item'', PInt 1)], PDict [(PStr ''item'', PInt 2)]])]\<rparr>"
  have m: "PregelInvoke ?subs silent \<in> set [item_batch, pair_reader]"
    by (simp add: pair_reader_def)
  have reg: "set (map snd ?subs) \<subseteq> dom batch_channels"
    by (simp add: batch_channels_def)
  have out: "lookup_get (new_channels ?r) ''output'' = Inl EmptyChannelError"
    by (simp add: batch_channels_def lookup_get_def channel_get_def LastValue_def)
  have out0: "lookup_get batch_channels ''output'' = Inl EmptyChannelError"
    by (simp add: batch_channels_def lookup_get_def channel_get_def LastValue_def)
  have plan: "apply_writes_and_prepare_next_tasks [item_batch, pair_reader] batch_channels
          [(''items'', PInt 1), (''ghost'', PInt 7), (''items'', PInt 2)] = Inr ?r"
    by (rule example_plan)
  note th = invoke_readiness [of ?subs batch_channels "{''items''}" silent "[item_batch, pair_reader]"
      batch_channels "[(''items'', PInt 1), (''ghost'', PInt 7), (''items'', PInt 2)]" ?r]
  from th reg obtain t where
    t: "prepare_task batch_channels {''items''} (PregelInvoke ?subs silent) = Inr t" and
    tn: "t \<noteq> None \<longleftrightarrow>
           (\<exists>chan\<in>set (map snd ?subs). chan \<in> {''items''}) \<and>
           (\<forall>chan\<in>set (map snd ?subs). lookup_get batch_channels chan \<noteq> Inl EmptyChannelError)"
    by blast
  from tn out0 have "t = None" by (cases t) auto
  with t have skipped: "prepare_task batch_channels {''items''} pair_reader = Inr None"
    by (simp only: pair_reader_def)
  from th plan m have
    "(\<exists>v. (PregelInvoke ?subs silent, v) \<in> set (tasks ?r)) \<longleftrightarrow>
       (\<exists>chan\<in>set (map snd ?subs). chan \<in> updated ?r) \<and>
       (\<forall>chan\<in>set (map snd ?subs). lookup_get (new_channels ?r) chan \<noteq> Inl EmptyChannelError)"
    by blast
  with out have unscheduled: "\<not> (\<exists>v. (pair_reader, v) \<in> set (tasks ?r))"
    by (simp add: pair_reader_def)
  have mem: "pair_reader \<in> set [item_batch, pair_reader]" by simp
  have upd: "''items'' \<in> updated ?r" by simp
  from plan mem reg upd out unscheduled skipped show ?thesis
    by blast
qed

lemma updated_is_readable:
  assumes ap: "apply_phase chans ws = (chans', U, evs)"
      and c: "c \<in> U"
      and rel: "\<forall>name ch. chans name = Some ch \<longrightarrow> reliable ch"
  shows "\<exists>v. lookup_get chans' c = Inr v"
proof -
  have n: "chans' = fst (apply_phase chans ws)"
    and u: "U = fst (snd (apply_phase chans ws))"
    using ap by simp_all
  from c have t: "c \<in> fst ` set ws" and "chans c \<noteq> None"
    unfolding u apply_phase_updated by simp_all
  then obtain ch where ch: "chans c = Some ch" by auto
  with rel have r: "reliable ch" by blast
  from t have ne: "written_to c ws \<noteq> []" by (simp add: written_to_empty_iff)
  have "chans' c = Some (channel_update ch (written_to c ws))"
    unfolding n apply_phase_channels using ch t by simp
  moreover from r ne have "get ch (update ch (written_to c ws) (state ch)) \<noteq> None"
    by (simp add: reliable_def)
  ultimately show ?thesis
    by (auto simp: lookup_get_def channel_get_def channel_update_def split: option.splits)
qed

lemma batch_task_ready:
  assumes "prepare_task chs V (PregelBatch c key b) = Inr t"
  shows "t \<noteq> None \<longleftrightarrow> c \<in> V"
  using assms by (auto split: if_splits sum.splits option.splits)

lemma batch_task_input:
  "prepare_task chs V (PregelBatch c key b) = Inr (Some (q, inp)) \<longleftrightarrow>
     q = PregelBatch c key b \<and> c \<in> V \<and>
     (\<exists>v. lookup_get chs c = Inr v \<and>
        (case key of
           None \<Rightarrow> inp = v
         | Some k \<Rightarrow>
             (\<exists>xs. (v = PList xs \<or>
                    (\<exists>s. v = PStr s \<and> xs = map (\<lambda>ch. PStr [ch]) s) \<or>
                    (\<exists>kvs. v = PDict kvs \<and> xs = map fst kvs)) \<and>
                   inp = PList (map (\<lambda>x. PDict [(PStr k, x)]) xs))))"
proof (cases "c \<in> V")
  case False
  then show ?thesis by simp
next
  case True
  show ?thesis
  proof (cases "lookup_get chs c")
    case (Inl e)
    with True show ?thesis by simp
  next
    case (Inr v)
    show ?thesis
    proof (cases key)
      case None
      with True Inr show ?thesis by auto
    next
      case (Some k)
      with True Inr show ?thesis by (cases v) auto
    qed
  qed
qed

lemma prepare_next_tasks_procs:
  "prepare_next_tasks chs V ps = Inr ts \<Longrightarrow>
   map fst ts = filter (\<lambda>p. prepare_task chs V p \<noteq> Inr None) ps"
proof (induction ps arbitrary: ts)
  case Nil
  then show ?case by simp
next
  case (Cons p ps)
  from Cons.prems obtain t ts' where
    t: "prepare_task chs V p = Inr t" and
    r: "prepare_next_tasks chs V ps = Inr ts'" and
    ts: "ts = (case t of None \<Rightarrow> ts' | Some x \<Rightarrow> x # ts')"
    by (auto split: sum.splits)
  show ?case
  proof (cases t)
    case None
    with Cons.IH [OF r] t ts show ?thesis by simp
  next
    case (Some x)
    obtain q v where x: "x = (q, v)" by (cases x)
    with t Some have "q = p" by (auto dest: prepare_task_proc)
    with Cons.IH [OF r] t ts Some x show ?thesis by simp
  qed
qed

lemma planner_parts:
  assumes "apply_phase chans ws = (chans', U, evs)"
      and "apply_writes_and_prepare_next_tasks ps chans ws = Inr r"
  shows "new_channels r = chans'" and "updated r = U" and "events r = evs"
    and "prepare_next_tasks chans' U ps = Inr (tasks r)"
  using assms(2) unfolding planner_unfold [OF assms(1)]
  by (auto split: sum.splits)

lemma task_member_iff:
  assumes "apply_writes_and_prepare_next_tasks ps chans ws = Inr r" and "p \<in> set ps"
  shows "(p, inp) \<in> set (tasks r) \<longleftrightarrow>
         prepare_task (new_channels r) (updated r) p = Inr (Some (p, inp))"
proof -
  obtain chans' U evs where ap: "apply_phase chans ws = (chans', U, evs)"
    using prod_cases3 by blast
  note parts = planner_parts [OF ap assms(1)]
  note s = prepare_next_tasks_set [OF parts(4)]
  show ?thesis
  proof
    assume "(p, inp) \<in> set (tasks r)"
    then obtain q where q: "prepare_task chans' U q = Inr (Some (p, inp))" using s by auto
    then have "p = q" by (rule prepare_task_proc)
    with q show "prepare_task (new_channels r) (updated r) p = Inr (Some (p, inp))"
      using parts(1,2) by simp
  next
    assume "prepare_task (new_channels r) (updated r) p = Inr (Some (p, inp))"
    then show "(p, inp) \<in> set (tasks r)"
      using s assms(2) parts(1,2) by auto
  qed
qed

lemma task_count:
  assumes "apply_writes_and_prepare_next_tasks ps chans ws = Inr r"
  shows "length (filter (\<lambda>t. fst t = p) (tasks r)) =
         (if prepare_task (new_channels r) (updated r) p = Inr None then 0
          else length (filter (\<lambda>q. q = p) ps))"
proof -
  obtain chans' U evs where ap: "apply_phase chans ws = (chans', U, evs)"
    using prod_cases3 by blast
  note parts = planner_parts [OF ap assms]
  have "length (filter (\<lambda>t. fst t = p) (tasks r)) = length (filter (\<lambda>q. q = p) (map fst (tasks r)))"
    by (simp add: filter_map comp_def)
  also have "\<dots> = length (filter (\<lambda>q. q = p)
                 (filter (\<lambda>q. prepare_task chans' U q \<noteq> Inr None) ps))"
    by (simp add: prepare_next_tasks_procs [OF parts(4)])
  also have "\<dots> = (if prepare_task chans' U p = Inr None then 0
                     else length (filter (\<lambda>q. q = p) ps))"
    by (auto simp: filter_empty_conv intro!: arg_cong [where f = length] filter_cong)
  finally show ?thesis using parts(1,2) by simp
qed


lemma batch_channels_reliable:
  "\<forall>name ch. batch_channels name = Some ch \<longrightarrow> reliable ch"
  by (auto simp: batch_channels_def reliable_def Topic_def LastValue_def split: if_splits)

text \<open>
  Claim C8. For a \<open>PregelBatch\<close> process over channel \<open>c\<close>, with channels that keep the
  guarantee that \<open>get\<close> succeeds after an \<open>update\<close>: when \<open>c\<close> is in
  \<open>updated_channels\<close> the read of \<open>c\<close> succeeds and the task prepared carries the
  channel's value as it is when \<open>key\<close> is \<open>None\<close>, and the list of the value's
  elements, each element \<open>x\<close> replaced by \<open>{key: x}\<close>, when \<open>key\<close> is set (the
  elements of a list, the characters of a string, the keys of a dictionary; a value that
  cannot be iterated raises \<open>TypeError\<close>); when \<open>c\<close> is not in \<open>updated_channels\<close>
  no task is prepared. And whenever the planner returns, the task list it returns holds
  the process exactly when \<open>c\<close> was updated, once for every time the process is
  declared, and the inputs it holds for the process are exactly that input.
\<close>

theorem batch_readiness:
  assumes ap: "apply_phase chans pending_writes = (chans', U, evs)"
      and rel: "\<forall>name ch. chans name = Some ch \<longrightarrow> reliable ch"
  shows "(if c \<in> U then
            (\<exists>v. lookup_get chans' c = Inr v \<and>
                 (case key of
                    None \<Rightarrow> prepare_task chans' U (PregelBatch c key b) = Inr (Some (PregelBatch c key b, v))
                  | Some k \<Rightarrow>
                      (\<forall>xs. v = PList xs \<longrightarrow>
                         prepare_task chans' U (PregelBatch c key b) =
                           Inr (Some (PregelBatch c key b, PList (map (\<lambda>x. PDict [(PStr k, x)]) xs)))) \<and>
                      (\<forall>s. v = PStr s \<longrightarrow>
                         prepare_task chans' U (PregelBatch c key b) =
                           Inr (Some (PregelBatch c key b, PList (map (\<lambda>ch. PDict [(PStr k, PStr [ch])]) s)))) \<and>
                      (\<forall>kvs. v = PDict kvs \<longrightarrow>
                         prepare_task chans' U (PregelBatch c key b) =
                           Inr (Some (PregelBatch c key b, PList (map (\<lambda>kv. PDict [(PStr k, fst kv)]) kvs)))) \<and>
                      (v = PNone \<or> (\<exists>n. v = PInt n) \<longrightarrow>
                         prepare_task chans' U (PregelBatch c key b) = Inl TypeError)))
          else prepare_task chans' U (PregelBatch c key b) = Inr None) \<and>
         (apply_writes_and_prepare_next_tasks processes chans pending_writes = Inr r \<and>
          PregelBatch c key b \<in> set processes \<longrightarrow>
            new_channels r = chans' \<and> updated r = U \<and>
            ((\<exists>v. (PregelBatch c key b, v) \<in> set (tasks r)) \<longleftrightarrow> c \<in> updated r) \<and>
            (\<forall>inp. (PregelBatch c key b, inp) \<in> set (tasks r) \<longleftrightarrow>
               c \<in> updated r \<and>
               (\<exists>v. lookup_get (new_channels r) c = Inr v \<and>
                  (case key of
                     None \<Rightarrow> inp = v
                   | Some k \<Rightarrow>
                       (\<exists>xs. (v = PList xs \<or>
                              (\<exists>s. v = PStr s \<and> xs = map (\<lambda>ch. PStr [ch]) s) \<or>
                              (\<exists>kvs. v = PDict kvs \<and> xs = map fst kvs)) \<and>
                             inp = PList (map (\<lambda>x. PDict [(PStr k, x)]) xs))))) \<and>
            length (filter (\<lambda>t. fst t = PregelBatch c key b) (tasks r)) =
              (if c \<in> updated r then length (filter (\<lambda>q. q = PregelBatch c key b) processes) else 0))"
proof (intro conjI impI)
  show "if c \<in> U then
            (\<exists>v. lookup_get chans' c = Inr v \<and>
                 (case key of
                    None \<Rightarrow> prepare_task chans' U (PregelBatch c key b) = Inr (Some (PregelBatch c key b, v))
                  | Some k \<Rightarrow>
                      (\<forall>xs. v = PList xs \<longrightarrow>
                         prepare_task chans' U (PregelBatch c key b) =
                           Inr (Some (PregelBatch c key b, PList (map (\<lambda>x. PDict [(PStr k, x)]) xs)))) \<and>
                      (\<forall>s. v = PStr s \<longrightarrow>
                         prepare_task chans' U (PregelBatch c key b) =
                           Inr (Some (PregelBatch c key b, PList (map (\<lambda>ch. PDict [(PStr k, PStr [ch])]) s)))) \<and>
                      (\<forall>kvs. v = PDict kvs \<longrightarrow>
                         prepare_task chans' U (PregelBatch c key b) =
                           Inr (Some (PregelBatch c key b, PList (map (\<lambda>kv. PDict [(PStr k, fst kv)]) kvs)))) \<and>
                      (v = PNone \<or> (\<exists>n. v = PInt n) \<longrightarrow>
                         prepare_task chans' U (PregelBatch c key b) = Inl TypeError)))
          else prepare_task chans' U (PregelBatch c key b) = Inr None"
  proof (cases "c \<in> U")
    case False
    then show ?thesis by simp
  next
    case True
    from updated_is_readable [OF ap True rel] obtain v where v: "lookup_get chans' c = Inr v"
      by blast
    with True show ?thesis by (cases key) (auto simp: comp_def)
  qed
next
  assume a: "apply_writes_and_prepare_next_tasks processes chans pending_writes = Inr r \<and>
          PregelBatch c key b \<in> set processes"
  then have p: "apply_writes_and_prepare_next_tasks processes chans pending_writes = Inr r"
    and m: "PregelBatch c key b \<in> set processes" by simp_all
  show "new_channels r = chans'" and "updated r = U"
    using planner_parts [OF ap p] by simp_all
  from scheduled_iff(2) [OF p m] obtain t where
    t: "prepare_task (new_channels r) (updated r) (PregelBatch c key b) = Inr t" by blast
  have "(\<exists>v. (PregelBatch c key b, v) \<in> set (tasks r)) \<longleftrightarrow> t \<noteq> None"
    unfolding scheduled_iff(1) [OF p m] by (rule task_some_iff [OF t])
  with batch_task_ready [OF t]
  show "(\<exists>v. (PregelBatch c key b, v) \<in> set (tasks r)) \<longleftrightarrow> c \<in> updated r"
    by simp
  show "\<forall>inp. (PregelBatch c key b, inp) \<in> set (tasks r) \<longleftrightarrow>
               c \<in> updated r \<and>
               (\<exists>v. lookup_get (new_channels r) c = Inr v \<and>
                  (case key of
                     None \<Rightarrow> inp = v
                   | Some k \<Rightarrow>
                       (\<exists>xs. (v = PList xs \<or>
                              (\<exists>s. v = PStr s \<and> xs = map (\<lambda>ch. PStr [ch]) s) \<or>
                              (\<exists>kvs. v = PDict kvs \<and> xs = map fst kvs)) \<and>
                             inp = PList (map (\<lambda>x. PDict [(PStr k, x)]) xs))))"
    unfolding task_member_iff [OF p m] batch_task_input by simp
  from batch_task_ready [OF t] t have "prepare_task (new_channels r) (updated r) (PregelBatch c key b) = Inr None \<longleftrightarrow> c \<notin> updated r"
    by auto
  then show "length (filter (\<lambda>t. fst t = PregelBatch c key b) (tasks r)) =
              (if c \<in> updated r then length (filter (\<lambda>q. q = PregelBatch c key b) processes) else 0)"
    unfolding task_count [OF p] by simp
qed


theorem batch_readiness_witness:
  "\<exists>chans' U evs r.
     apply_phase batch_channels [(''items'', PInt 1), (''ghost'', PInt 7), (''items'', PInt 2)] = (chans', U, evs) \<and>
     apply_writes_and_prepare_next_tasks [item_batch, pair_reader] batch_channels
          [(''items'', PInt 1), (''ghost'', PInt 7), (''items'', PInt 2)] = Inr r \<and>
     item_batch \<in> set [item_batch, pair_reader] \<and>
     ''items'' \<in> U \<and> ''items'' \<in> updated r \<and>
     lookup_get chans' ''items'' = Inr (PList [PInt 1, PInt 2]) \<and>
     prepare_task chans' U item_batch =
       Inr (Some (item_batch, PList [PDict [(PStr ''item'', PInt 1)], PDict [(PStr ''item'', PInt 2)]])) \<and>
     (\<exists>v. (item_batch, v) \<in> set (tasks r)) \<and>
     (item_batch, PList [PDict [(PStr ''item'', PInt 1)], PDict [(PStr ''item'', PInt 2)]]) \<in> set (tasks r) \<and>
     length (filter (\<lambda>t. fst t = item_batch) (tasks r)) = 1"
proof -
  let ?ws = "[(''items'', PInt 1), (''ghost'', PInt 7), (''items'', PInt 2)]"
  let ?p = "PregelBatch ''items'' (Some ''item'') silent"
  let ?r = "\<lparr>new_channels = batch_channels(''items'' \<mapsto> channel_update (Topic ''int'') [PInt 1, PInt 2]),
        updated = {''items''},
        events = [UpdateCall ''items'' [PInt 1, PInt 2], Warning (skip_message ''ghost'')],
        tasks = [(item_batch, PList [PDict [(PStr ''item'', PInt 1)], PDict [(PStr ''item'', PInt 2)]])]\<rparr>"
  obtain chans' U evs where ap: "apply_phase batch_channels ?ws = (chans', U, evs)"
    using prod_cases3 by blast
  have plan: "apply_writes_and_prepare_next_tasks [item_batch, pair_reader] batch_channels ?ws = Inr ?r"
    by (rule example_plan)
  have m: "?p \<in> set [item_batch, pair_reader]"
    by (simp add: item_batch_def)
  have u: "U = {''items''}"
    using ap apply_phase_updated [of batch_channels ?ws]
    by (auto simp: batch_channels_def)
  have g: "lookup_get chans' ''items'' = Inr (PList [PInt 1, PInt 2])"
    using ap apply_phase_channels [of batch_channels ?ws "''items''"]
    by (simp add: batch_channels_def lookup_get_def channel_get_def channel_update_def Topic_def)
  note th = batch_readiness [OF ap batch_channels_reliable, of "''items''" "Some ''item''" silent
      "[item_batch, pair_reader]" ?r]
  from th u g have task:
    "prepare_task chans' U ?p =
       Inr (Some (?p, PList [PDict [(PStr ''item'', PInt 1)], PDict [(PStr ''item'', PInt 2)]]))"
    by (simp del: prepare_task.simps)
  have mem: "item_batch \<in> set [item_batch, pair_reader]" by simp
  have upd: "''items'' \<in> updated ?r" by simp
  from th plan m upd have sched: "\<exists>v. (?p, v) \<in> set (tasks ?r)"
    by blast
  from th plan m have same: "new_channels ?r = chans'"
    by blast
  from th plan m have
    "\<forall>inp. (?p, inp) \<in> set (tasks ?r) \<longleftrightarrow>
       ''items'' \<in> updated ?r \<and>
       (\<exists>v. lookup_get (new_channels ?r) ''items'' = Inr v \<and>
          (case Some ''item'' of
             None \<Rightarrow> inp = v
           | Some k \<Rightarrow>
               (\<exists>xs. (v = PList xs \<or>
                      (\<exists>s. v = PStr s \<and> xs = map (\<lambda>ch. PStr [ch]) s) \<or>
                      (\<exists>kvs. v = PDict kvs \<and> xs = map fst kvs)) \<and>
                     inp = PList (map (\<lambda>x. PDict [(PStr k, x)]) xs))))"
    by blast
  with upd g same have inp:
    "(?p, PList [PDict [(PStr ''item'', PInt 1)], PDict [(PStr ''item'', PInt 2)]]) \<in> set (tasks ?r)"
    by (simp del: prepare_task.simps add: item_batch_def)
  from th plan m have
    "length (filter (\<lambda>t. fst t = ?p) (tasks ?r)) =
       (if ''items'' \<in> updated ?r then length (filter (\<lambda>q. q = ?p) [item_batch, pair_reader]) else 0)"
    by blast
  then have one: "length (filter (\<lambda>t. fst t = ?p) (tasks ?r)) = 1"
    by (simp add: item_batch_def pair_reader_def)
  from ap plan mem u upd g task sched inp one show ?thesis
    unfolding item_batch_def [symmetric] by blast
qed

section \<open>The injected read function\<close>

text \<open>
  Claim C5. \<open>read\<close> never raises \<open>EmptyChannelError\<close>; for a registered name it returns
  the channel's current value when the channel has one and \<open>None\<close> when the channel is
  empty.
\<close>

theorem read_hides_empty_channel:
  "read chans chan \<noteq> Inl EmptyChannelError \<and>
   (\<forall>ch. chans chan = Some ch \<longrightarrow>
      read chans chan = Inr (case get ch (state ch) of None \<Rightarrow> PNone | Some v \<Rightarrow> v))"
  by (auto simp: read_def lookup_get_def channel_get_def split: option.splits sum.splits pyerror.splits)

theorem read_hides_empty_channel_witness:
  "echo_channels ''output'' = Some (LastValue ''str'') \<and>
   get (LastValue ''str'') (state (LastValue ''str'')) = None \<and>
   read echo_channels ''output'' = Inr PNone \<and>
   read echo_channels ''output'' \<noteq> Inl EmptyChannelError"
proof -
  have reg: "echo_channels ''output'' = Some (LastValue ''str'')"
    by (simp add: echo_channels_def)
  have empty: "get (LastValue ''str'') (state (LastValue ''str'')) = None"
    by (simp add: LastValue_def)
  from read_hides_empty_channel [of echo_channels "''output''"] reg empty show ?thesis
    by simp
qed

section \<open>The entry points\<close>

lemma keep_latest_last:
  "keep_latest latest chunks = (if chunks = [] then latest else last chunks)"
  by (induction latest chunks rule: keep_latest.induct) auto

text \<open>
  Claim C7. \<open>invoke\<close> returns the last value \<open>stream\<close> yields on the same input, and
  \<open>None\<close> when \<open>stream\<close> yields nothing; when \<open>stream\<close> ends in an exception,
  \<open>invoke\<close> raises it.
\<close>

theorem invoke_last_of_stream:
  "invoke eng recursion_limit inp =
     (case raised (stream eng recursion_limit inp) of
        Some e \<Rightarrow> Inl e
      | None \<Rightarrow>
          Inr (if yielded (stream eng recursion_limit inp) = [] then PNone
               else last (yielded (stream eng recursion_limit inp))))"
  by (simp add: invoke_def Let_def keep_latest_last split: option.splits)

lemma prepare_nothing_updated:
  "prepare_next_tasks chs {} ps = Inr []"
proof (induction ps)
  case Nil
  then show ?case by simp
next
  case (Cons p ps)
  have "prepare_task chs {} p = Inr None"
    by (cases p) (simp_all add: list_ex_iff)
  with Cons show ?case by simp
qed

lemma plan_no_writes:
  "apply_writes_and_prepare_next_tasks ps chs [] =
     Inr \<lparr>new_channels = chs, updated = {}, events = [], tasks = []\<rparr>"
  by (simp add: apply_writes_and_prepare_next_tasks_def apply_phase_def prepare_nothing_updated)

lemma emit_no_writes: "emit_output out chs [] = Inr None"
  by (cases out) simp_all

lemma step_body_no_tasks: "step_body eng step chs [] = Inr (None, chs, [])"
  by (simp add: step_body_def run_tasks_def plan_no_writes emit_no_writes)

text \<open>
  On the thread pool (\<^verbatim>\<open>_transform\<close>): when the planner returns an empty task list
  for the seed writes, the run yields nothing and ends without an exception (after one
  idle iteration, or none when \<open>recursion_limit\<close> is below one).
\<close>

lemma no_tasks_after_seed:
  assumes "seed_writes (input eng) inp = Inr seed"
      and "apply_writes_and_prepare_next_tasks (chains eng) (channels eng) seed = Inr r"
      and "tasks r = []"
  shows "Pregel_transform eng recursion_limit inp =
           \<lparr>yielded = [], raised = None, steps = (if 0 < recursion_limit then 1 else 0)\<rparr>"
proof (cases "nat recursion_limit")
  case 0
  with assms show ?thesis by (simp add: Pregel_transform_def)
next
  case (Suc n)
  then have "0 < recursion_limit" by simp
  with assms Suc show ?thesis
    by (simp add: Pregel_transform_def step_body_no_tasks)
qed

lemma no_tasks_after_seed_example:
  "\<exists>seed r.
     seed_writes (input items_engine) [PDict [(PStr ''other'', PInt 1)]] = Inr seed \<and>
     apply_writes_and_prepare_next_tasks (chains items_engine) (channels items_engine) seed = Inr r \<and>
     tasks r = [] \<and>
     Pregel_transform items_engine 25 [PDict [(PStr ''other'', PInt 1)]] =
       \<lparr>yielded = [], raised = None, steps = 1\<rparr>"
proof -
  have seed: "seed_writes (input items_engine) [PDict [(PStr ''other'', PInt 1)]] = Inr []"
    by (simp add: items_engine_def)
  have plan: "apply_writes_and_prepare_next_tasks (chains items_engine) (channels items_engine) [] =
      Inr \<lparr>new_channels = channels items_engine, updated = {}, events = [], tasks = []\<rparr>"
    by (rule plan_no_writes)
  have none: "tasks \<lparr>new_channels = channels items_engine, updated = {}, events = [], tasks = []\<rparr> = []"
    by simp
  from no_tasks_after_seed [OF seed plan none, of 25] seed plan none show ?thesis
    by auto
qed






section \<open>The emission for a single output name\<close>

lemma emit_single:
  "emit_output (Single out) chs pending =
     (if \<exists>w\<in>set pending. ident (fst w) = ident out
      then (case lookup_get chs (chars out) of Inl e \<Rightarrow> Inl e | Inr v \<Rightarrow> Inr (Some v))
      else Inr None)"
  by (auto simp: list_ex_iff split: prod.splits)

text \<open>
  Where every name of the buffer that has the characters of the output name is also the
  same object (as when all names are interned), the test on identity is the test on the
  name.
\<close>

lemma emit_single_interned:
  assumes "\<forall>w\<in>set pending. chars (fst w) = chars out \<longrightarrow> ident (fst w) = ident out"
      and "\<forall>w\<in>set pending. ident (fst w) = ident out \<longrightarrow> chars (fst w) = chars out"
  shows "emit_output (Single out) chs pending =
     (if chars out \<in> set (map (chars \<circ> fst) pending)
      then (case lookup_get chs (chars out) of Inl e \<Rightarrow> Inl e | Inr v \<Rightarrow> Inr (Some v))
      else Inr None)"
proof -
  have "(\<exists>w\<in>set pending. ident (fst w) = ident out) \<longleftrightarrow> chars out \<in> set (map (chars \<circ> fst) pending)"
    using assms by force
  then show ?thesis unfolding emit_single by simp
qed

text \<open>
  Claim C1. The echo engine whose process sends its result under a name with the
  characters of the output name, held by another string object: the write targets the
  output channel and the channel is updated, yet the step yields nothing and \<open>invoke\<close>
  returns \<open>None\<close>. With the output name object itself the value is yielded.
\<close>

theorem output_write_not_emitted:
  "chars rebuilt_output_name = chars output_name \<and>
   emit_output (Single output_name) (echo_channels(''output'' \<mapsto> channel_update (LastValue ''str'') [PStr ''hello!'']))
     [(rebuilt_output_name, PStr ''hello!'')] = Inr None \<and>
   stream (echo_engine rebuilt_output_name) 25 (PStr ''hello'') =
     \<lparr>yielded = [], raised = None, steps = 1\<rparr> \<and>
   invoke (echo_engine rebuilt_output_name) 25 (PStr ''hello'') = Inr PNone \<and>
   stream (echo_engine output_name) 25 (PStr ''hello'') =
     \<lparr>yielded = [PStr ''hello!''], raised = None, steps = 1\<rparr>"
  by (simp add: invoke_def stream_def transform_def Pregel_transform_def echo_engine_def echo_channels_def
      LastValue_def apply_writes_and_prepare_next_tasks_def apply_phase_def channel_update_def
      lookup_get_def channel_get_def input_name_def output_name_def rebuilt_output_name_def
      echo_to_def step_body_def run_tasks_def read_def eval_nat_numeral)

section \<open>The input schema\<close>








section \<open>A run without tasks on the event loop\<close>

lemma astep_body_no_tasks: "astep_body eng step chs [] = Inl ValueError"
  by (simp add: astep_body_def arun_tasks_def)

lemma atransform_no_tasks_after_seed:
  assumes "seed_writes (input eng) inp = Inr seed"
      and "apply_writes_and_prepare_next_tasks (chains eng) (channels eng) seed = Inr r"
      and "tasks r = []"
  shows "Pregel_atransform eng recursion_limit inp =
           (if 0 < recursion_limit then \<lparr>yielded = [], raised = Some ValueError, steps = 1\<rparr>
            else \<lparr>yielded = [], raised = None, steps = 0\<rparr>)"
proof (cases "nat recursion_limit")
  case 0
  with assms show ?thesis by (simp add: Pregel_atransform_def)
next
  case (Suc n)
  then have "0 < recursion_limit" by simp
  with assms Suc show ?thesis
    by (simp add: Pregel_atransform_def astep_body_no_tasks)
qed

text \<open>
  Claim C9. The engine over \<open>items\<close> is run on an input mapping without the key
  \<open>items\<close>: the seed is empty and the planner returns no task. On the thread pool
  (\<^verbatim>\<open>_transform\<close>) the run yields nothing and ends without an exception; on the event
  loop (\<^verbatim>\<open>_atransform\<close>) the first iteration raises \<open>ValueError\<close>.
\<close>

theorem async_run_without_tasks_raises:
  "seed_writes (input items_engine) [PDict [(PStr ''other'', PInt 1)]] = Inr [] \<and>
   apply_writes_and_prepare_next_tasks (chains items_engine) (channels items_engine) [] =
     Inr \<lparr>new_channels = channels items_engine, updated = {}, events = [], tasks = []\<rparr> \<and>
   Pregel_transform items_engine 25 [PDict [(PStr ''other'', PInt 1)]] =
     \<lparr>yielded = [], raised = None, steps = 1\<rparr> \<and>
   Pregel_atransform items_engine 25 [PDict [(PStr ''other'', PInt 1)]] =
     \<lparr>yielded = [], raised = Some ValueError, steps = 1\<rparr>"
proof -
  have seed: "seed_writes (input items_engine) [PDict [(PStr ''other'', PInt 1)]] = Inr []"
    by (simp add: items_engine_def)
  have plan: "apply_writes_and_prepare_next_tasks (chains items_engine) (channels items_engine) [] =
      Inr \<lparr>new_channels = channels items_engine, updated = {}, events = [], tasks = []\<rparr>"
    by (rule plan_no_writes)
  have none: "tasks \<lparr>new_channels = channels items_engine, updated = {}, events = [], tasks = []\<rparr> = []"
    by simp
  have sync: "Pregel_transform items_engine 25 [PDict [(PStr ''other'', PInt 1)]] =
     \<lparr>yielded = [], raised = None, steps = 1\<rparr>"
    using seed plan by (simp add: Pregel_transform_def step_body_no_tasks eval_nat_numeral)
  have async: "Pregel_atransform items_engine 25 [PDict [(PStr ''other'', PInt 1)]] =
     \<lparr>yielded = [], raised = Some ValueError, steps = 1\<rparr>"
    using atransform_no_tasks_after_seed [OF seed plan none, of 25] by simp
  from seed plan sync async show ?thesis by simp
qed

end
